theory Spec2Isabelle
  imports Complex_Main
begin

section \<open>Errors raised by the tutorial scripts\<close>

text \<open>
  The tutorials are straight-line Python scripts. Every \<^verbatim>\<open>assert\<close> of a script
  and every exception of a library call it makes is a value of this type; a script
  stops at the first one.
\<close>

datatype error = AssertionError | ValueError | LibraryException

section \<open>Multiprocessing.py: the interpolation matrix, slice by slice\<close>

subsection \<open>Sparse matrices in compressed-row storage\<close>

text \<open>
  The three arrays and the shape of a \<^verbatim>\<open>scipy.sparse.csr_matrix\<close>: row \<open>i\<close> holds the
  entries \<open>indptr[i] ..< indptr[i+1]\<close> of \<open>indices\<close> (columns) and \<open>data\<close> (values).
  Values are the library's doubles, read as real numbers; the script only adds them to
  zero and subtracts them from themselves.
\<close>

record csr_matrix =
  data :: "real list"
  indices :: "nat list"
  indptr :: "nat list"
  shape :: "nat \<times> nat"

type_synonym sparse_row = "(nat \<times> real) list"

definition csr_row :: "csr_matrix \<Rightarrow> nat \<Rightarrow> sparse_row" where
  "csr_row M i =
     (let s = indptr M ! i; e = indptr M ! Suc i
      in zip (take (e - s) (drop s (indices M))) (take (e - s) (drop s (data M))))"

text \<open>The value a sparse row holds in column \<open>j\<close>: entries of one column add up.\<close>

definition row_entry :: "sparse_row \<Rightarrow> nat \<Rightarrow> real" where
  "row_entry r j = sum_list (map snd (filter (\<lambda>p. fst p = j) r))"

definition entry :: "csr_matrix \<Rightarrow> nat \<Rightarrow> nat \<Rightarrow> real" where
  "entry M i j = (if i < fst (shape M) then row_entry (csr_row M i) j else 0)"

text \<open>Row offsets of a list of row lengths: \<open>[0, n0, n0 + n1, ...]\<close>.\<close>

definition offsets :: "nat list \<Rightarrow> nat list" where
  "offsets ns = map (\<lambda>k. sum_list (take k ns)) [0..<Suc (length ns)]"

definition csr_of_rows :: "sparse_row list \<Rightarrow> nat \<Rightarrow> csr_matrix" where
  "csr_of_rows rows ncols =
     \<lparr> data = concat (map (map snd) rows),
       indices = concat (map (map fst) rows),
       indptr = offsets (map length rows),
       shape = (length rows, ncols) \<rparr>"

text \<open>
  Modelled from the spec: \<^verbatim>\<open>scipy.sparse.csr_matrix((data, indices, indptr), shape)\<close>,
  the "compressed-row sparse-matrix construction" of the generic sparse-matrix library.
  The constructor refuses index arrays that do not describe a matrix of that shape: a
  negative offset, a row-offset array whose length is not the row count plus one or
  that does not start at zero, or fewer stored entries than the last offset. It keeps
  the entries below the last offset.
\<close>

definition csr_matrix_new :: "real list \<times> nat list \<times> int list \<Rightarrow> nat \<times> nat \<Rightarrow> error + csr_matrix" where
  "csr_matrix_new arrs shp =
     (case arrs of (d, ind, ptr) \<Rightarrow>
        if (\<exists>x \<in> set ptr. x < 0) \<or> length ptr \<noteq> Suc (fst shp) \<or> hd ptr \<noteq> 0
           \<or> length ind \<noteq> length d \<or> int (length ind) < last ptr
        then Inl ValueError
        else Inr \<lparr> data = take (nat (last ptr)) d, indices = take (nat (last ptr)) ind,
                   indptr = map nat ptr, shape = shp \<rparr>)"

text \<open>
  Modelled from the spec: "compressed-row sparse-matrix construction/arithmetic
  (elementwise add/subtract, non-zero counting)". The sum or difference of two matrices
  of one shape stores, row by row and in column order, the entries whose result is not
  zero; matrices of different shapes are refused. The number of stored entries is the
  last row offset.
\<close>

definition csr_binop :: "(real \<Rightarrow> real \<Rightarrow> real) \<Rightarrow> csr_matrix \<Rightarrow> csr_matrix \<Rightarrow> error + csr_matrix" where
  "csr_binop f A B =
     (if shape A \<noteq> shape B then Inl ValueError
      else Inr (csr_of_rows
        (map (\<lambda>i. filter (\<lambda>p. snd p \<noteq> 0)
                 (map (\<lambda>j. (j, f (entry A i j) (entry B i j)))
                      (sort (remdups (map fst (csr_row A i) @ map fst (csr_row B i))))))
             [0..<fst (shape A)])
        (snd (shape A))))"

definition csr_add :: "csr_matrix \<Rightarrow> csr_matrix \<Rightarrow> error + csr_matrix" where
  "csr_add = csr_binop (\<lambda>x y. x + y)"

definition csr_sub :: "csr_matrix \<Rightarrow> csr_matrix \<Rightarrow> error + csr_matrix" where
  "csr_sub = csr_binop (\<lambda>x y. x - y)"

definition nnz :: "csr_matrix \<Rightarrow> nat" where
  "nnz M = last (indptr M)"

subsection \<open>Integer arrays of the mesh-coupling library\<close>

text \<open>
  Modelled from the spec: the "delta shift" of an index array, "i.e., consecutive
  difference, yields a per-group size array". The library refuses an array of fewer
  than two entries.
\<close>

definition deltaShiftIndex :: "int list \<Rightarrow> error + int list" where
  "deltaShiftIndex xs =
     (if length xs < 2 then Inl LibraryException
      else Inr (map (\<lambda>k. xs ! Suc k - xs ! k) [0..<length xs - 1]))"

text \<open>
  Modelled from the spec: "convert back to a cumulative offset array": an array of \<open>n\<close>
  counts becomes the \<open>n + 1\<close> offsets \<open>[0, c0, c0 + c1, ...]\<close>.
\<close>

definition computeOffsetsFull :: "int list \<Rightarrow> int list" where
  "computeOffsetsFull cs = map (\<lambda>k. sum_list (take k cs)) [0..<Suc (length cs)]"

definition fillWithZero :: "nat \<Rightarrow> int list" where
  "fillWithZero n = replicate n 0"

text \<open>
  Modelled from the spec: \<^verbatim>\<open>arr[ids] = vals\<close>, "placing each slice row's nonzero count at
  its correct global row". The assignment needs one value per id and every id within
  the array.
\<close>

definition setitem_ids :: "int list \<Rightarrow> int list \<Rightarrow> int list \<Rightarrow> error + int list" where
  "setitem_ids arr ids vals =
     (if length ids \<noteq> length vals \<or> (\<exists>i \<in> set ids. i < 0 \<or> int (length arr) \<le> i)
      then Inl LibraryException
      else Inr (fold (\<lambda>(i, v) a. a[nat i := v]) (zip ids vals) arr))"

text \<open>\<^verbatim>\<open>DataArrayInt.Range(start, stop, step)\<close>, for the step 1 of the script's slices.\<close>

definition Range :: "nat \<Rightarrow> nat \<Rightarrow> int list" where
  "Range start stop = map int [start..<stop]"

text \<open>
  Modelled from the spec: \<^verbatim>\<open>DataArray.GetSlice(slice(start, stop, 1), i, nbProc)\<close>, "a
  uniform striding scheme (slice \<open>i\<close> of \<open>nbProc\<close> over the full cell-index range)":
  every slice but the last takes the whole quotient of the range by the number of
  slices, the last one runs to the end of the range.
\<close>

definition GetSlice :: "nat \<Rightarrow> nat \<Rightarrow> nat \<Rightarrow> nat \<Rightarrow> nat \<times> nat" where
  "GetSlice start stop sliceId nbOfSlices =
     (let minNbOfElemsPerSlice = (stop - start) div nbOfSlices
      in (start + minNbOfElemsPerSlice * sliceId,
          if sliceId + 1 < nbOfSlices then start + minNbOfElemsPerSlice * (sliceId + 1)
          else stop))"

subsection \<open>The remapper\<close>

text \<open>
  Modelled from the spec: the interpolation itself is the remapper extension's, which
  computes "for every target cell, the set of source cells it geometrically intersects
  and the measure of each intersection". Two things of it are parameters of the model:
  the status code \<^verbatim>\<open>prepare\<close> returns for a pair of meshes, and the sparse row it
  computes for one target cell against a source mesh. So the row of a target cell is
  the same whether the cell is prepared within the whole target mesh or within a part
  of it: that is what the script relies on, and it is taken from the library here.
  A mesh is the list of its cells; the matrix has one row per target cell and one
  column per source cell.
\<close>

record 'c remapper_lib =
  prepare_status :: "'c list \<Rightarrow> 'c list \<Rightarrow> int"
  cell_row :: "'c list \<Rightarrow> 'c \<Rightarrow> sparse_row"

definition prepare :: "'c remapper_lib \<Rightarrow> 'c list \<Rightarrow> 'c list \<Rightarrow> int \<times> sparse_row list" where
  "prepare lib srcMesh trgMesh =
     (prepare_status lib srcMesh trgMesh, map (cell_row lib srcMesh) trgMesh)"

definition getCrudeCSRMatrix :: "sparse_row list \<Rightarrow> nat \<Rightarrow> csr_matrix" where
  "getCrudeCSRMatrix rows nbSrcCells = csr_of_rows rows nbSrcCells"

subsection \<open>The script\<close>

text \<open>\<^verbatim>\<open>m2[s]\<close> for a slice of step 1: the cells \<open>start ..< stop\<close> of the mesh.\<close>

definition mesh_slice :: "'c list \<Rightarrow> nat \<Rightarrow> nat \<Rightarrow> 'c list" where
  "mesh_slice mesh start stop = take (stop - start) (drop start mesh)"

text \<open>
  \<^verbatim>\<open>work(inp)\<close>, lines 82 to 96: the matrix of the source mesh \<open>m\<close> against one part of the
  target mesh \<open>m2\<close>, its rows moved to their places among the rows of \<open>m2\<close>.
\<close>

definition work :: "'c remapper_lib \<Rightarrow> 'c list \<Rightarrow> 'c list \<Rightarrow> 'c list \<times> int list \<Rightarrow> error + csr_matrix" where
  "work lib m m2 inp =
     (case inp of (m2Part, partToGlob) \<Rightarrow>
      (case prepare lib m m2Part of (status, myRemap) \<Rightarrow>
        if status \<noteq> 1 then Inl AssertionError
        else
          let myMat = getCrudeCSRMatrix myRemap (length m);
              indptrnew = fillWithZero (length m2)
          in (case deltaShiftIndex (map int (indptr myMat)) of
                Inl e \<Rightarrow> Inl e
              | Inr d \<Rightarrow>
                 (case setitem_ids indptrnew partToGlob d of
                    Inl e \<Rightarrow> Inl e
                  | Inr indptrnew' \<Rightarrow>
                      csr_matrix_new (data myMat, indices myMat, computeOffsetsFull indptrnew')
                        (length m2, length m)))))"

text \<open>The list of inputs, lines 101 to 106: one part of \<open>m2\<close> per process.\<close>

definition workToDo :: "'c list \<Rightarrow> nat \<Rightarrow> ('c list \<times> int list) list" where
  "workToDo m2 nbProc =
     map (\<lambda>i. case GetSlice 0 (length m2) i nbProc of
                 (start, stop) \<Rightarrow> (mesh_slice m2 start stop, Range start stop))
         [0..<nbProc]"

text \<open>
  \<^verbatim>\<open>pool.map_async(work, workToDo).get()\<close>: the results in the order of the inputs; an
  exception of a worker is raised again by \<^verbatim>\<open>get\<close>. The workers share no state, so the
  order in which they run does not show.
\<close>

fun pool_map :: "('a \<Rightarrow> error + 'b) \<Rightarrow> 'a list \<Rightarrow> error + 'b list" where
  "pool_map f [] = Inr []"
| "pool_map f (x # xs) =
     (case f x of
        Inl e \<Rightarrow> Inl e
      | Inr y \<Rightarrow> (case pool_map f xs of Inl e \<Rightarrow> Inl e | Inr ys \<Rightarrow> Inr (y # ys)))"

text \<open>
  Python's \<^verbatim>\<open>sum\<close> starts from the integer 0; a sparse matrix added to it is the matrix
  itself, and subtracting it from a matrix leaves that matrix.
\<close>

datatype py_sum = PyZero | PyMat csr_matrix

fun py_add :: "py_sum \<Rightarrow> csr_matrix \<Rightarrow> error + py_sum" where
  "py_add PyZero M = Inr (PyMat M)"
| "py_add (PyMat A) M = (case csr_add A M of Inl e \<Rightarrow> Inl e | Inr S \<Rightarrow> Inr (PyMat S))"

fun sum_from :: "py_sum \<Rightarrow> csr_matrix list \<Rightarrow> error + py_sum" where
  "sum_from acc [] = Inr acc"
| "sum_from acc (M # Ms) = (case py_add acc M of Inl e \<Rightarrow> Inl e | Inr acc' \<Rightarrow> sum_from acc' Ms)"

fun py_sub :: "csr_matrix \<Rightarrow> py_sum \<Rightarrow> error + csr_matrix" where
  "py_sub A PyZero = Inr A"
| "py_sub A (PyMat B) = csr_sub A B"

text \<open>
  The whole script: the sequential matrix (lines 60 to 67), the parallel one (lines
  101 to 113 and 129) and their difference (lines 130 and 131). It returns the three
  matrices when every assertion holds.
\<close>

record run_result =
  matSeq :: csr_matrix
  matPar :: py_sum
  matDelta :: csr_matrix

definition multiprocessing_script :: "'c remapper_lib \<Rightarrow> 'c list \<Rightarrow> 'c list \<Rightarrow> nat \<Rightarrow> error + run_result" where
  "multiprocessing_script lib m m2 nbProc =
     (case prepare lib m m2 of (status, remap) \<Rightarrow>
        if status \<noteq> 1 then Inl AssertionError
        else
          let mSeq = getCrudeCSRMatrix remap (length m) in
          (case pool_map (work lib m m2) (workToDo m2 nbProc) of
             Inl e \<Rightarrow> Inl e
           | Inr subMatrices \<Rightarrow>
              (case sum_from PyZero subMatrices of
                 Inl e \<Rightarrow> Inl e
               | Inr mPar \<Rightarrow>
                  (case py_sub mSeq mPar of
                     Inl e \<Rightarrow> Inl e
                   | Inr mDelta \<Rightarrow>
                       if nnz mDelta \<noteq> 0 then Inl AssertionError
                       else Inr \<lparr> matSeq = mSeq, matPar = mPar, matDelta = mDelta \<rparr>))))"

text \<open>
  The matrix a worker returns for slice \<open>k\<close>, written out: the rows of the part at their
  places among the rows of \<open>m2\<close>, every other row empty.
\<close>

definition padded :: "nat \<Rightarrow> sparse_row list \<Rightarrow> nat \<Rightarrow> sparse_row list" where
  "padded a rows k = replicate a [] @ rows @ replicate k []"

definition slice_matrix :: "'c remapper_lib \<Rightarrow> 'c list \<Rightarrow> 'c list \<Rightarrow> nat \<Rightarrow> nat \<Rightarrow> csr_matrix" where
  "slice_matrix lib m m2 nbProc k =
     (case GetSlice 0 (length m2) k nbProc of (start, stop) \<Rightarrow>
        csr_of_rows (padded start (map (cell_row lib m) (mesh_slice m2 start stop)) (length m2 - stop))
          (length m))"

subsection \<open>Rows of a matrix in compressed-row storage\<close>

lemma length_offsets: "length (offsets ns) = Suc (length ns)"
  by (simp add: offsets_def)

lemma offsets_nth: "k \<le> length ns \<Longrightarrow> offsets ns ! k = sum_list (take k ns)"
  unfolding offsets_def by (simp only: nth_map_upt length_upt) (simp add: nth_map_upt del: upt_Suc)

lemma hd_offsets: "hd (offsets ns) = 0"
  by (simp add: offsets_def hd_map upt_conv_Cons del: upt_Suc)

lemma last_offsets: "last (offsets ns) = sum_list ns"
  by (simp add: offsets_def)

lemma sum_list_take_lengths: "sum_list (take k (map length rows)) = length (concat (take k rows))"
  by (simp add: length_concat take_map)

lemma concat_map_split:
  "concat (map f rows) = concat (map f (take i rows)) @ concat (map f (drop i rows))"
  by (metis append_take_drop_id concat_append map_append)

lemma length_concat_map_fst: "length (concat (map (map f) rows)) = length (concat rows)"
  by (simp add: length_concat comp_def)

lemma drop_concat_rows:
  "drop (length (concat (take i rows))) (concat (map (map f) rows)) = concat (map (map f) (drop i rows))"
proof -
  have "length (concat (map (map f) (take i rows))) = length (concat (take i rows))"
    by (rule length_concat_map_fst)
  then show ?thesis
    by (subst concat_map_split [of _ _ i]) simp
qed

lemma csr_row_of_rows:
  assumes "i < length rows"
  shows "csr_row (csr_of_rows rows n) i = rows ! i"
proof -
  let ?s = "length (concat (take i rows))"
  have s: "offsets (map length rows) ! i = ?s"
    using assms by (simp add: offsets_nth sum_list_take_lengths)
  have e: "offsets (map length rows) ! Suc i = ?s + length (rows ! i)"
    using assms by (simp add: offsets_nth sum_list_take_lengths take_Suc_conv_app_nth)
  have d: "drop i rows = rows ! i # drop (Suc i) rows"
    using assms by (simp add: Cons_nth_drop_Suc)
  have "take (length (rows ! i)) (drop ?s (concat (map (map fst) rows))) = map fst (rows ! i)"
    and "take (length (rows ! i)) (drop ?s (concat (map (map snd) rows))) = map snd (rows ! i)"
    by (simp_all add: drop_concat_rows d)
  then show ?thesis
    by (simp add: csr_row_def csr_of_rows_def s e zip_map_fst_snd Let_def)
qed

lemma row_entry_Nil [simp]: "row_entry [] j = 0"
  by (simp add: row_entry_def)

lemma row_entry_absent: "j \<notin> fst ` set r \<Longrightarrow> row_entry r j = 0"
proof -
  assume "j \<notin> fst ` set r"
  then have "filter (\<lambda>p. fst p = j) r = []"
    by (auto simp: filter_empty_conv)
  then show ?thesis by (simp add: row_entry_def)
qed

lemma row_entry_tabulate:
  "distinct cols \<Longrightarrow>
   row_entry (filter (\<lambda>p. snd p \<noteq> 0) (map (\<lambda>j. (j, g j)) cols)) j = (if j \<in> set cols then g j else 0)"
proof (induction cols)
  case Nil
  then show ?case by simp
next
  case (Cons c cols)
  then show ?case by (auto simp: row_entry_def)
qed

lemma shape_csr_of_rows [simp]: "shape (csr_of_rows rows n) = (length rows, n)"
  by (simp add: csr_of_rows_def)

lemma entry_csr_of_rows:
  "entry (csr_of_rows rows n) i j = (if i < length rows then row_entry (rows ! i) j else 0)"
  by (simp add: entry_def csr_row_of_rows)

lemma entry_csr_binop:
  assumes "csr_binop f A B = Inr R" and "f 0 0 = 0"
  shows "shape R = shape A \<and> entry R i j = (if i < fst (shape A) then f (entry A i j) (entry B i j) else 0)"
proof -
  let ?cols = "\<lambda>i. sort (remdups (map fst (csr_row A i) @ map fst (csr_row B i)))"
  have sh: "shape A = shape B" using assms(1) by (auto simp: csr_binop_def split: if_splits)
  have R: "R = csr_of_rows
        (map (\<lambda>i. filter (\<lambda>p. snd p \<noteq> 0) (map (\<lambda>j. (j, f (entry A i j) (entry B i j))) (?cols i)))
             [0..<fst (shape A)])
        (snd (shape A))"
    using assms(1) by (auto simp: csr_binop_def split: if_splits)
  have d: "distinct (?cols i)" by simp
  show ?thesis
  proof (cases "i < fst (shape A)")
    case False
    then show ?thesis by (simp add: R entry_csr_of_rows)
  next
    case True
    have absent: "f (entry A i j) (entry B i j) = 0" if "j \<notin> set (?cols i)"
    proof -
      from that have "j \<notin> fst ` set (csr_row A i)" "j \<notin> fst ` set (csr_row B i)" by auto
      then have "entry A i j = 0" "entry B i j = 0"
        by (simp_all add: entry_def row_entry_absent)
      then show ?thesis by (simp add: assms(2))
    qed
    have "entry R i j = (if j \<in> set (?cols i) then f (entry A i j) (entry B i j) else 0)"
      using True by (simp add: R entry_csr_of_rows row_entry_tabulate [OF d] del: set_sort sort_key_simps)
    then show ?thesis using True absent by (simp add: R)
  qed
qed

subsection \<open>What a worker returns\<close>

lemma offsets_step: "k < length ns \<Longrightarrow> offsets ns ! Suc k = offsets ns ! k + ns ! k"
  by (simp add: offsets_nth take_Suc_conv_app_nth)

lemma deltaShiftIndex_offsets:
  assumes "ns \<noteq> []"
  shows "deltaShiftIndex (map int (offsets ns)) = Inr (map int ns)"
proof -
  have len: "\<not> length (map int (offsets ns)) < 2"
    using assms by (cases ns) (simp_all add: length_offsets)
  have "map (\<lambda>k. map int (offsets ns) ! Suc k - map int (offsets ns) ! k) [0..<length ns] = map int ns"
    by (rule nth_equalityI) (simp_all add: length_offsets offsets_step)
  then show ?thesis
    using len by (simp add: deltaShiftIndex_def length_offsets)
qed

lemma sum_list_map_int: "sum_list (map int ns) = int (sum_list ns)"
  by (induction ns) simp_all

lemma computeOffsetsFull_int: "computeOffsetsFull (map int ns) = map int (offsets ns)"
  by (simp add: computeOffsetsFull_def offsets_def take_map sum_list_map_int del: upt_Suc)

lemma fold_setitem_range:
  "a + length vals \<le> length arr \<Longrightarrow>
   fold (\<lambda>(i, v) a. a[nat i := v]) (zip (map int [a..<a + length vals]) vals) arr
     = take a arr @ vals @ drop (a + length vals) arr"
proof (induction vals arbitrary: a arr)
  case Nil
  then show ?case by simp
next
  case (Cons v vs)
  have up: "[a..<a + length (v # vs)] = a # [Suc a..<Suc a + length vs]"
    by (subst upt_rec) simp
  have lt: "a < length arr" using Cons.prems by simp
  have "fold (\<lambda>(i, v) a. a[nat i := v]) (zip (map int [a..<a + length (v # vs)]) (v # vs)) arr
      = fold (\<lambda>(i, v) a. a[nat i := v]) (zip (map int [Suc a..<Suc a + length vs]) vs) (arr[a := v])"
    by (simp only: up) simp
  also have "\<dots> = take (Suc a) (arr[a := v]) @ vs @ drop (Suc a + length vs) (arr[a := v])"
    using Cons.prems by (intro Cons.IH) simp
  also have "\<dots> = take a arr @ (v # vs) @ drop (a + length (v # vs)) arr"
    using lt by (simp add: take_Suc_conv_app_nth)
  finally show ?case .
qed

lemma setitem_ids_Range_len:
  assumes "a + length vals \<le> n"
  shows "setitem_ids (fillWithZero n) (Range a (a + length vals)) vals
       = Inr (replicate a 0 @ vals @ replicate (n - (a + length vals)) 0)"
proof -
  have in_range: "\<forall>i \<in> set (Range a (a + length vals)). \<not> (i < 0 \<or> int (length (fillWithZero n)) \<le> i)"
    using assms by (auto simp: Range_def fillWithZero_def)
  have len: "length (Range a (a + length vals)) = length vals"
    by (simp add: Range_def)
  have "fold (\<lambda>(i, v) a. a[nat i := v]) (zip (map int [a..<a + length vals]) vals) (replicate n 0)
      = take a (replicate n 0) @ vals @ drop (a + length vals) (replicate n 0)"
    using assms by (intro fold_setitem_range) simp
  also have "\<dots> = replicate a 0 @ vals @ replicate (n - (a + length vals)) 0"
    using assms by (simp add: min_def)
  finally have f: "fold (\<lambda>(i, v) a. a[nat i := v]) (zip (Range a (a + length vals)) vals) (fillWithZero n)
      = replicate a 0 @ vals @ replicate (n - (a + length vals)) 0"
    by (simp only: Range_def fillWithZero_def)
  show ?thesis
    unfolding setitem_ids_def using in_range len f by auto
qed

lemma setitem_ids_Range:
  assumes "a \<le> b" "b \<le> n" "length vals = b - a"
  shows "setitem_ids (fillWithZero n) (Range a b) vals = Inr (replicate a 0 @ vals @ replicate (n - b) 0)"
proof -
  have b: "a + length vals = b" using assms by simp
  have "a + length vals \<le> n" using assms by simp
  from setitem_ids_Range_len [OF this] show ?thesis
    by (simp only: b)
qed

lemma csr_matrix_new_offsets:
  assumes "length d = length ind" "sum_list ns = length ind" "length ns = nr"
  shows "csr_matrix_new (d, ind, map int (offsets ns)) (nr, nc)
       = Inr \<lparr> data = d, indices = ind, indptr = offsets ns, shape = (nr, nc) \<rparr>"
proof -
  have "hd (map int (offsets ns)) = 0"
    by (simp add: offsets_def hd_map upt_conv_Cons del: upt_Suc)
  moreover have "last (map int (offsets ns)) = int (sum_list ns)"
    by (simp add: last_map offsets_def)
  moreover have "map nat (map int (offsets ns)) = offsets ns"
    by (simp add: comp_def)
  ultimately show ?thesis
    using assms by (simp add: csr_matrix_new_def length_offsets)
qed

lemma work_slice:
  assumes st: "prepare_status lib m (mesh_slice m2 a b) = 1"
    and ab: "a < b" "b \<le> length m2"
  shows "work lib m m2 (mesh_slice m2 a b, Range a b)
       = Inr (csr_of_rows (padded a (map (cell_row lib m) (mesh_slice m2 a b)) (length m2 - b)) (length m))"
proof -
  let ?rows = "map (cell_row lib m) (mesh_slice m2 a b)"
  let ?ns = "map length (padded a ?rows (length m2 - b))"
  have len: "length ?rows = b - a"
    using ab by (simp add: mesh_slice_def)
  have ne: "map length ?rows \<noteq> []"
    using len ab by auto
  have d: "deltaShiftIndex (map int (indptr (getCrudeCSRMatrix ?rows (length m)))) = Inr (map int (map length ?rows))"
    using deltaShiftIndex_offsets [OF ne] by (simp add: getCrudeCSRMatrix_def csr_of_rows_def)
  have s: "setitem_ids (fillWithZero (length m2)) (Range a b) (map int (map length ?rows))
         = Inr (map int ?ns)"
    using ab len by (subst setitem_ids_Range) (simp_all add: padded_def map_replicate)
  have c: "computeOffsetsFull (map int ?ns) = map int (offsets ?ns)"
    by (rule computeOffsetsFull_int)
  have dat: "concat (map (map f) (padded a ?rows k)) = concat (map (map f) ?rows)" for f :: "nat \<times> real \<Rightarrow> real" and k
    by (simp add: padded_def)
  have ind: "concat (map (map f) (padded a ?rows k)) = concat (map (map f) ?rows)" for f :: "nat \<times> real \<Rightarrow> nat" and k
    by (simp add: padded_def)
  have n: "csr_matrix_new (data (getCrudeCSRMatrix ?rows (length m)), indices (getCrudeCSRMatrix ?rows (length m)), map int (offsets ?ns))
             (length m2, length m)
         = Inr (csr_of_rows (padded a ?rows (length m2 - b)) (length m))"
    using ab len
    by (subst csr_matrix_new_offsets)
       (simp_all add: getCrudeCSRMatrix_def csr_of_rows_def dat ind length_concat comp_def padded_def)
  show ?thesis
    using st by (simp add: work_def prepare_def Let_def d s c n del: map_map)
qed

subsection \<open>Sums and differences of matrices\<close>

lemma entry_out_of_shape: "\<not> i < fst (shape M) \<Longrightarrow> entry M i j = 0"
  by (simp add: entry_def)

lemma entry_csr_add:
  assumes "csr_add A B = Inr S"
  shows "shape S = shape A" and "entry S i j = entry A i j + entry B i j"
proof -
  have sh: "shape A = shape B"
    using assms by (auto simp: csr_add_def csr_binop_def split: if_splits)
  have b: "csr_binop (\<lambda>x y. x + y) A B = Inr S" "(\<lambda>x y :: real. x + y) 0 0 = 0"
    using assms by (simp_all add: csr_add_def)
  note e = entry_csr_binop [OF b, of i j]
  show "shape S = shape A" using e by simp
  show "entry S i j = entry A i j + entry B i j"
  proof (cases "i < fst (shape A)")
    case True
    then show ?thesis using e by simp
  next
    case False
    then have "entry A i j = 0" "entry B i j = 0"
      using sh by (simp_all add: entry_out_of_shape)
    then show ?thesis using e False by simp
  qed
qed

lemma csr_add_defined: "shape A = shape B \<Longrightarrow> \<exists>S. csr_add A B = Inr S"
  by (simp add: csr_add_def csr_binop_def)

lemma sum_from_PyMat:
  "(\<And>M. M \<in> set Ms \<Longrightarrow> shape M = shape A) \<Longrightarrow>
   \<exists>R. sum_from (PyMat A) Ms = Inr (PyMat R) \<and> shape R = shape A
       \<and> (\<forall>i j. entry R i j = entry A i j + sum_list (map (\<lambda>M. entry M i j) Ms))"
proof (induction Ms arbitrary: A)
  case Nil
  then show ?case by simp
next
  case (Cons M Ms)
  have "shape A = shape M" using Cons.prems by simp
  then obtain S where S: "csr_add A M = Inr S"
    using csr_add_defined by blast
  note sS = entry_csr_add [OF S]
  have "\<And>M'. M' \<in> set Ms \<Longrightarrow> shape M' = shape S"
    using Cons.prems sS(1) by simp
  from Cons.IH [OF this] obtain R where
    R: "sum_from (PyMat S) Ms = Inr (PyMat R)" "shape R = shape S"
       "\<forall>i j. entry R i j = entry S i j + sum_list (map (\<lambda>M. entry M i j) Ms)"
    by blast
  show ?case
    using S R sS by (intro exI [of _ R]) (simp add: add.assoc)
qed

lemma sum_from_PyZero:
  assumes "Ms \<noteq> []" and "\<And>M. M \<in> set Ms \<Longrightarrow> shape M = shp"
  shows "\<exists>R. sum_from PyZero Ms = Inr (PyMat R) \<and> shape R = shp
       \<and> (\<forall>i j. entry R i j = sum_list (map (\<lambda>M. entry M i j) Ms))"
proof (cases Ms)
  case Nil
  then show ?thesis using assms by simp
next
  case (Cons M Ms')
  have "\<And>M'. M' \<in> set Ms' \<Longrightarrow> shape M' = shape M"
    using assms(2) Cons by simp
  from sum_from_PyMat [OF this] obtain R where
    "sum_from (PyMat M) Ms' = Inr (PyMat R)" "shape R = shape M"
    "\<forall>i j. entry R i j = entry M i j + sum_list (map (\<lambda>M. entry M i j) Ms')"
    by blast
  then show ?thesis
    using Cons assms(2) by (intro exI [of _ R]) simp
qed

lemma nnz_csr_of_rows: "nnz (csr_of_rows rows n) = length (concat rows)"
  by (simp add: nnz_def csr_of_rows_def offsets_def length_concat)

lemma csr_sub_equal_entries:
  assumes "shape A = shape B" and "\<And>i j. i < fst (shape A) \<Longrightarrow> entry A i j = entry B i j"
  shows "\<exists>D. csr_sub A B = Inr D \<and> nnz D = 0 \<and> data D = [] \<and> shape D = shape A"
proof -
  let ?rows = "map (\<lambda>i. filter (\<lambda>p. snd p \<noteq> 0)
                 (map (\<lambda>j. (j, entry A i j - entry B i j))
                      (sort (remdups (map fst (csr_row A i) @ map fst (csr_row B i))))))
             [0..<fst (shape A)]"
  have D: "csr_sub A B = Inr (csr_of_rows ?rows (snd (shape A)))"
    using assms(1) by (simp add: csr_sub_def csr_binop_def)
  have "r = []" if "r \<in> set ?rows" for r
  proof -
    from that obtain i where i: "i < fst (shape A)"
      and r: "r = filter (\<lambda>p. snd p \<noteq> 0)
                 (map (\<lambda>j. (j, entry A i j - entry B i j))
                      (sort (remdups (map fst (csr_row A i) @ map fst (csr_row B i)))))"
      by auto
    show ?thesis
      unfolding r using assms(2) [OF i] by (simp add: filter_empty_conv del: set_sort sort_key_simps)
  qed
  then have c: "concat ?rows = []"
    by (simp only: concat_eq_Nil_conv) blast
  have "concat (map (map snd) ?rows) = []"
    using \<open>\<And>r. r \<in> set ?rows \<Longrightarrow> r = []\<close>
    by (simp only: concat_eq_Nil_conv) (auto simp del: set_sort sort_key_simps)
  then have "data (csr_of_rows ?rows (snd (shape A))) = []"
    by (simp only: csr_of_rows_def csr_matrix.simps)
  moreover have "nnz (csr_of_rows ?rows (snd (shape A))) = 0"
    by (simp only: nnz_csr_of_rows c list.size)
  ultimately show ?thesis
    using D by (intro exI [of _ "csr_of_rows ?rows (snd (shape A))"]) (simp del: set_sort sort_key_simps)
qed

subsection \<open>The slices cover the rows of the target mesh once\<close>

lemma pool_map_map:
  "(\<And>k. k \<in> set ks \<Longrightarrow> f (h k) = Inr (g k)) \<Longrightarrow> pool_map f (map h ks) = Inr (map g ks)"
  by (induction ks) simp_all

lemma slice_bounds:
  assumes "0 < p" "p \<le> n" "k < p"
  shows "fst (GetSlice 0 n k p) < snd (GetSlice 0 n k p)" and "snd (GetSlice 0 n k p) \<le> n"
proof -
  let ?q = "n div p"
  have q: "0 < ?q" using assms by (simp add: div_greater_zero_iff)
  have qp: "?q * p \<le> n" by simp
  have le: "?q * Suc k \<le> ?q * p" using assms by (intro mult_le_mono2) simp
  have len: "?q * Suc k \<le> n" by (rule order_trans [OF le qp])
  show "snd (GetSlice 0 n k p) \<le> n"
  proof (cases "k + 1 < p")
    case True
    then show ?thesis using len by (simp add: GetSlice_def Let_def)
  next
    case False
    then show ?thesis by (simp add: GetSlice_def Let_def)
  qed
  show "fst (GetSlice 0 n k p) < snd (GetSlice 0 n k p)"
  proof (cases "k + 1 < p")
    case True
    then show ?thesis using q by (simp add: GetSlice_def Let_def)
  next
    case False
    have "?q * k < ?q * Suc k" using q by simp
    also have "\<dots> \<le> n" by (rule len)
    finally show ?thesis using False by (simp add: GetSlice_def Let_def)
  qed
qed

lemma entry_padded:
  "entry (csr_of_rows (padded a rows k) n) i j
     = (if a \<le> i \<and> i < a + length rows then row_entry (rows ! (i - a)) j else 0)"
  by (auto simp: entry_csr_of_rows padded_def nth_append)

lemma nth_mesh_slice:
  "a \<le> i \<Longrightarrow> i < b \<Longrightarrow> b \<le> length mesh \<Longrightarrow> mesh_slice mesh a b ! (i - a) = mesh ! i"
  by (simp add: mesh_slice_def)

lemma entry_slice_matrix:
  assumes "a \<le> b" "b \<le> length m2"
  shows "entry (csr_of_rows (padded a (map (cell_row lib m) (mesh_slice m2 a b)) (length m2 - b)) nc) i j
       = (if a \<le> i \<and> i < b then row_entry (cell_row lib m (m2 ! i)) j else 0)"
proof -
  have len: "length (mesh_slice m2 a b) = b - a"
    using assms by (simp add: mesh_slice_def)
  show ?thesis
  proof (cases "a \<le> i \<and> i < b")
    case True
    then have "i - a < length (mesh_slice m2 a b)" unfolding len by linarith
    then show ?thesis
      using True assms by (simp add: entry_padded len nth_mesh_slice)
  next
    case False
    then show ?thesis using assms by (auto simp: entry_padded len)
  qed
qed

lemma sum_uniform_slices:
  "sum_list (map (\<lambda>k. if q * k \<le> i \<and> i < q * Suc k then x else 0) [0..<n])
     = (if i < q * n then (x :: real) else 0)"
proof (induction n)
  case 0
  then show ?case by simp
next
  case (Suc n)
  have "q * n \<le> q * Suc n" by simp
  then show ?case using Suc by auto
qed

lemma sum_over_slices:
  assumes "0 < p" "i < n"
  shows "sum_list (map (\<lambda>k. if fst (GetSlice 0 n k p) \<le> i \<and> i < snd (GetSlice 0 n k p) then x else 0) [0..<p])
       = (x :: real)"
proof -
  obtain p' where p: "p = Suc p'" using assms by (cases p) simp_all
  let ?q = "n div p"
  have "map (\<lambda>k. if fst (GetSlice 0 n k p) \<le> i \<and> i < snd (GetSlice 0 n k p) then x else 0) [0..<p']
      = map (\<lambda>k. if ?q * k \<le> i \<and> i < ?q * Suc k then x else 0) [0..<p']"
    by (rule map_cong) (simp_all add: GetSlice_def Let_def p)
  then have "sum_list (map (\<lambda>k. if fst (GetSlice 0 n k p) \<le> i \<and> i < snd (GetSlice 0 n k p) then x else 0) [0..<p'])
      = (if i < ?q * p' then x else 0)"
    by (simp only: sum_uniform_slices)
  moreover have "(if fst (GetSlice 0 n p' p) \<le> i \<and> i < snd (GetSlice 0 n p' p) then x else 0)
      = (if ?q * p' \<le> i then x else 0)"
    using assms by (simp add: GetSlice_def Let_def p)
  ultimately show ?thesis
    by (simp add: p)
qed

lemma workToDo_nth:
  "workToDo m2 nbProc
     = map (\<lambda>k. (mesh_slice m2 (fst (GetSlice 0 (length m2) k nbProc)) (snd (GetSlice 0 (length m2) k nbProc)),
                 Range (fst (GetSlice 0 (length m2) k nbProc)) (snd (GetSlice 0 (length m2) k nbProc))))
           [0..<nbProc]"
  by (simp add: workToDo_def case_prod_unfold)

lemma shape_slice_matrix:
  assumes "0 < nbProc" "nbProc \<le> length m2" "k < nbProc"
  shows "shape (slice_matrix lib m m2 nbProc k) = (length m2, length m)"
proof -
  note b = slice_bounds [OF assms]
  show ?thesis
    using b by (simp add: slice_matrix_def case_prod_unfold padded_def mesh_slice_def)
qed

lemma entry_slice_matrix_k:
  assumes "0 < nbProc" "nbProc \<le> length m2" "k < nbProc"
  shows "entry (slice_matrix lib m m2 nbProc k) i j
       = (if fst (GetSlice 0 (length m2) k nbProc) \<le> i \<and> i < snd (GetSlice 0 (length m2) k nbProc)
          then row_entry (cell_row lib m (m2 ! i)) j else 0)"
proof -
  note b = slice_bounds [OF assms]
  show ?thesis
    unfolding slice_matrix_def case_prod_unfold
    using b by (intro entry_slice_matrix) simp_all
qed

lemma subMatrices:
  assumes p: "0 < nbProc" "nbProc \<le> length m2"
    and st: "\<forall>u \<in> set (workToDo m2 nbProc). prepare_status lib m (fst u) = 1"
  shows "pool_map (work lib m m2) (workToDo m2 nbProc) = Inr (map (slice_matrix lib m m2 nbProc) [0..<nbProc])"
  unfolding workToDo_nth
proof (rule pool_map_map)
  fix k assume "k \<in> set [0..<nbProc]"
  then have k: "k < nbProc" by simp
  note b = slice_bounds [OF p k]
  let ?a = "fst (GetSlice 0 (length m2) k nbProc)" and ?b = "snd (GetSlice 0 (length m2) k nbProc)"
  have "(mesh_slice m2 ?a ?b, Range ?a ?b) \<in> set (workToDo m2 nbProc)"
    unfolding workToDo_nth set_map using k by (intro image_eqI [where x = k]) simp_all
  with st have "prepare_status lib m (mesh_slice m2 ?a ?b) = 1" by auto
  from work_slice [OF this b]
  show "work lib m m2 (mesh_slice m2 ?a ?b, Range ?a ?b) = Inr (slice_matrix lib m m2 nbProc k)"
    by (simp add: slice_matrix_def case_prod_unfold)
qed

subsection \<open>The rows of the matrix a worker returns\<close>

lemma nth_padded:
  "i < a + length rows + k \<Longrightarrow>
   padded a rows k ! i = (if a \<le> i \<and> i < a + length rows then rows ! (i - a) else [])"
  by (auto simp: padded_def nth_append)

lemma csr_row_slice_matrix:
  assumes "0 < nbProc" "nbProc \<le> length m2" "k < nbProc" "i < length m2"
  shows "csr_row (slice_matrix lib m m2 nbProc k) i
       = (if fst (GetSlice 0 (length m2) k nbProc) \<le> i \<and> i < snd (GetSlice 0 (length m2) k nbProc)
          then cell_row lib m (m2 ! i) else [])"
proof -
  let ?a = "fst (GetSlice 0 (length m2) k nbProc)" and ?b = "snd (GetSlice 0 (length m2) k nbProc)"
  note b = slice_bounds [OF assms(1-3)]
  let ?rows = "map (cell_row lib m) (mesh_slice m2 ?a ?b)"
  have len: "length ?rows = ?b - ?a"
    using b by (simp add: mesh_slice_def)
  have tot: "length (padded ?a ?rows (length m2 - ?b)) = length m2"
    using b len by (simp add: padded_def)
  have "csr_row (slice_matrix lib m m2 nbProc k) i = padded ?a ?rows (length m2 - ?b) ! i"
    using assms(4) tot by (simp add: slice_matrix_def case_prod_unfold csr_row_of_rows)
  also have "\<dots> = (if ?a \<le> i \<and> i < ?a + length ?rows then ?rows ! (i - ?a) else [])"
    using assms(4) b len by (intro nth_padded) simp
  also have "\<dots> = (if ?a \<le> i \<and> i < ?b then cell_row lib m (m2 ! i) else [])"
  proof (cases "?a \<le> i \<and> i < ?b")
    case True
    then have "i - ?a < length (mesh_slice m2 ?a ?b)"
      using len by simp linarith
    then show ?thesis
      using True b len by (simp add: nth_mesh_slice)
  next
    case False
    then show ?thesis using len b by auto
  qed
  finally show ?thesis .
qed

lemma slice_matrix_arrays:
  assumes "0 < nbProc" "nbProc \<le> length m2" "k < nbProc"
  shows "data (slice_matrix lib m m2 nbProc k)
           = data (getCrudeCSRMatrix (snd (prepare lib m (fst (workToDo m2 nbProc ! k)))) (length m))"
    and "indices (slice_matrix lib m m2 nbProc k)
           = indices (getCrudeCSRMatrix (snd (prepare lib m (fst (workToDo m2 nbProc ! k)))) (length m))"
    and "length (indptr (slice_matrix lib m m2 nbProc k)) = Suc (length m2)"
proof -
  note b = slice_bounds [OF assms]
  have w: "fst (workToDo m2 nbProc ! k)
         = mesh_slice m2 (fst (GetSlice 0 (length m2) k nbProc)) (snd (GetSlice 0 (length m2) k nbProc))"
    using assms(3) by (simp add: workToDo_nth)
  show "data (slice_matrix lib m m2 nbProc k)
           = data (getCrudeCSRMatrix (snd (prepare lib m (fst (workToDo m2 nbProc ! k)))) (length m))"
    by (simp add: w slice_matrix_def case_prod_unfold getCrudeCSRMatrix_def csr_of_rows_def prepare_def padded_def)
  show "indices (slice_matrix lib m m2 nbProc k)
           = indices (getCrudeCSRMatrix (snd (prepare lib m (fst (workToDo m2 nbProc ! k)))) (length m))"
    by (simp add: w slice_matrix_def case_prod_unfold getCrudeCSRMatrix_def csr_of_rows_def prepare_def padded_def)
  show "length (indptr (slice_matrix lib m m2 nbProc k)) = Suc (length m2)"
    using b by (simp add: slice_matrix_def case_prod_unfold csr_of_rows_def length_offsets padded_def mesh_slice_def)
qed

lemma one_slice_per_row:
  assumes "0 < p" "p \<le> n" "i < n"
  shows "\<exists>!k. k < p \<and> fst (GetSlice 0 n k p) \<le> i \<and> i < snd (GetSlice 0 n k p)"
proof -
  let ?q = "n div p"
  have q: "0 < ?q" using assms by (simp add: div_greater_zero_iff)
  obtain p' where p: "p = Suc p'" using assms by (cases p) simp_all
  have inner: "k < p' \<Longrightarrow> (fst (GetSlice 0 n k p) \<le> i \<and> i < snd (GetSlice 0 n k p)) = (k = i div ?q)" for k
  proof -
    assume "k < p'"
    then have "(fst (GetSlice 0 n k p) \<le> i \<and> i < snd (GetSlice 0 n k p)) = (?q * k \<le> i \<and> i < ?q * Suc k)"
      by (simp add: GetSlice_def Let_def p)
    also have "\<dots> = (k = i div ?q)"
    proof
      assume h: "?q * k \<le> i \<and> i < ?q * Suc k"
      then have "k \<le> i div ?q" using q by (simp add: less_eq_div_iff_mult_less_eq mult.commute)
      moreover have "i div ?q < Suc k" using h q by (simp add: div_less_iff_less_mult mult.commute)
      ultimately show "k = i div ?q" by simp
    next
      assume "k = i div ?q"
      then show "?q * k \<le> i \<and> i < ?q * Suc k"
        using q by (simp add: dividend_less_times_div)
    qed
    finally show ?thesis .
  qed
  have last: "(fst (GetSlice 0 n p' p) \<le> i \<and> i < snd (GetSlice 0 n p' p)) = (?q * p' \<le> i)"
    using assms by (simp add: GetSlice_def Let_def p)
  show ?thesis
  proof (cases "?q * p' \<le> i")
    case True
    have "p' \<le> i div ?q" using True q by (simp add: less_eq_div_iff_mult_less_eq mult.commute)
    then have no: "k < p' \<Longrightarrow> k \<noteq> i div ?q" for k by simp
    show ?thesis
    proof (rule ex1I [of _ p'])
      show "p' < p \<and> fst (GetSlice 0 n p' p) \<le> i \<and> i < snd (GetSlice 0 n p' p)"
        using True last p by simp
    next
      fix k assume k: "k < p \<and> fst (GetSlice 0 n k p) \<le> i \<and> i < snd (GetSlice 0 n k p)"
      show "k = p'"
      proof (rule ccontr)
        assume "k \<noteq> p'"
        then have "k < p'" using k p by simp
        then show False using inner [of k] no [of k] k by simp
      qed
    qed
  next
    case False
    then have lt: "i < ?q * p'" by simp
    then have d: "i div ?q < p'" using q by (simp add: div_less_iff_less_mult mult.commute)
    show ?thesis
    proof (rule ex1I [of _ "i div ?q"])
      show "i div ?q < p \<and> fst (GetSlice 0 n (i div ?q) p) \<le> i \<and> i < snd (GetSlice 0 n (i div ?q) p)"
        using inner [OF d] d p by simp
    next
      fix k assume k: "k < p \<and> fst (GetSlice 0 n k p) \<le> i \<and> i < snd (GetSlice 0 n k p)"
      show "k = i div ?q"
      proof (cases "k < p'")
        case True
        then show ?thesis using inner [of k] k by simp
      next
        case False
        then have "k = p'" using k p by simp
        then show ?thesis using k last lt by simp
      qed
    qed
  qed
qed

subsection \<open>The run of the script, for any two meshes\<close>

lemma script_matrices_equal:
  assumes p: "0 < nbProc" "nbProc \<le> length m2"
    and st_seq: "prepare_status lib m m2 = 1"
    and st_par: "\<forall>u \<in> set (workToDo m2 nbProc). prepare_status lib m (fst u) = 1"
  shows "\<exists>subMatrices P D.
           pool_map (work lib m m2) (workToDo m2 nbProc) = Inr subMatrices
         \<and> subMatrices = map (slice_matrix lib m m2 nbProc) [0..<nbProc]
         \<and> sum_from PyZero subMatrices = Inr (PyMat P)
         \<and> shape P = shape (getCrudeCSRMatrix (snd (prepare lib m m2)) (length m))
         \<and> (\<forall>i j. entry P i j = entry (getCrudeCSRMatrix (snd (prepare lib m m2)) (length m)) i j)
         \<and> csr_sub (getCrudeCSRMatrix (snd (prepare lib m m2)) (length m)) P = Inr D
         \<and> nnz D = 0 \<and> data D = []
         \<and> multiprocessing_script lib m m2 nbProc
             = Inr \<lparr> matSeq = getCrudeCSRMatrix (snd (prepare lib m m2)) (length m),
                     matPar = PyMat P, matDelta = D \<rparr>"
proof -
  let ?seq = "getCrudeCSRMatrix (snd (prepare lib m m2)) (length m)"
  let ?Ms = "map (slice_matrix lib m m2 nbProc) [0..<nbProc]"
  have sub: "pool_map (work lib m m2) (workToDo m2 nbProc) = Inr ?Ms"
    by (rule subMatrices [OF p st_par])
  have ne: "?Ms \<noteq> []" using p by simp
  have shapes: "\<And>M. M \<in> set ?Ms \<Longrightarrow> shape M = (length m2, length m)"
    using p by (auto simp: shape_slice_matrix)
  from sum_from_PyZero [OF ne shapes] obtain P where
    P: "sum_from PyZero ?Ms = Inr (PyMat P)" "shape P = (length m2, length m)"
       "\<forall>i j. entry P i j = sum_list (map (\<lambda>M. entry M i j) ?Ms)"
    by blast
  have shape_seq: "shape ?seq = (length m2, length m)"
    by (simp add: getCrudeCSRMatrix_def prepare_def)
  have entry_seq: "entry ?seq i j = (if i < length m2 then row_entry (cell_row lib m (m2 ! i)) j else 0)" for i j
    by (simp add: getCrudeCSRMatrix_def prepare_def entry_csr_of_rows)
  have entry_P: "entry P i j = entry ?seq i j" for i j
  proof (cases "i < length m2")
    case True
    from P(3) have "entry P i j = sum_list (map (\<lambda>M. entry M i j) ?Ms)"
      by blast
    also have "\<dots> = sum_list (map (\<lambda>k. if fst (GetSlice 0 (length m2) k nbProc) \<le> i \<and> i < snd (GetSlice 0 (length m2) k nbProc)
                    then row_entry (cell_row lib m (m2 ! i)) j else 0) [0..<nbProc])"
      unfolding map_map comp_def
      by (rule arg_cong [where f = sum_list], rule map_cong) (simp_all add: entry_slice_matrix_k [OF p])
    also have "\<dots> = row_entry (cell_row lib m (m2 ! i)) j"
      by (rule sum_over_slices [OF p(1) True])
    finally have "entry P i j = row_entry (cell_row lib m (m2 ! i)) j" .
    then show ?thesis using True by (simp add: entry_seq)
  next
    case False
    then show ?thesis using P(2) by (simp add: entry_seq entry_out_of_shape)
  qed
  have sh: "shape ?seq = shape P" using P(2) shape_seq by simp
  from csr_sub_equal_entries [OF sh] entry_P obtain D where
    D: "csr_sub ?seq P = Inr D" "nnz D = 0" "data D = []"
    by metis
  have run: "multiprocessing_script lib m m2 nbProc = Inr \<lparr> matSeq = ?seq, matPar = PyMat P, matDelta = D \<rparr>"
    using st_seq sub P(1) D(1,2) by (simp add: multiprocessing_script_def prepare_def Let_def)
  show ?thesis
    using sub P(1) sh entry_P D run
    by (intro exI [of _ ?Ms] exI [of _ P] exI [of _ D]) simp
qed

lemma work_result:
  assumes "0 < nbProc" "nbProc \<le> length m2" "k < nbProc"
  shows "work lib m m2 (workToDo m2 nbProc ! k)
       = (if prepare_status lib m (fst (workToDo m2 nbProc ! k)) = 1
          then Inr (slice_matrix lib m m2 nbProc k) else Inl AssertionError)"
proof -
  let ?a = "fst (GetSlice 0 (length m2) k nbProc)" and ?b = "snd (GetSlice 0 (length m2) k nbProc)"
  note b = slice_bounds [OF assms]
  have w: "workToDo m2 nbProc ! k = (mesh_slice m2 ?a ?b, Range ?a ?b)"
    using assms(3) by (simp add: workToDo_nth)
  show ?thesis
  proof (cases "prepare_status lib m (mesh_slice m2 ?a ?b) = 1")
    case True
    from work_slice [OF this b] show ?thesis
      using True by (simp add: w slice_matrix_def case_prod_unfold)
  next
    case False
    then show ?thesis by (simp add: w work_def prepare_def)
  qed
qed




lemma rows_by_partToGlob:
  assumes p: "0 < nbProc" "nbProc \<le> length trg" "k < nbProc"
    and l: "l < length (snd (workToDo trg nbProc ! k))"
  shows "csr_row (slice_matrix lib src trg nbProc k) (nat (snd (workToDo trg nbProc ! k) ! l))
       = csr_row (getCrudeCSRMatrix (snd (prepare lib src (fst (workToDo trg nbProc ! k)))) (length src)) l"
proof -
  let ?a = "fst (GetSlice 0 (length trg) k nbProc)" and ?b = "snd (GetSlice 0 (length trg) k nbProc)"
  note b = slice_bounds [OF p]
  have w: "workToDo trg nbProc ! k = (mesh_slice trg ?a ?b, Range ?a ?b)"
    using p(3) by (simp add: workToDo_nth)
  have ll: "l < ?b - ?a" using l by (simp add: w Range_def)
  then have g: "nat (Range ?a ?b ! l) = ?a + l"
    by (simp add: Range_def)
  have in_trg: "?a + l < length trg" using ll b by linarith
  have lb: "?a + l < ?b" using ll by linarith
  have "csr_row (slice_matrix lib src trg nbProc k) (?a + l) = cell_row lib src (trg ! (?a + l))"
    using lb by (simp add: csr_row_slice_matrix [OF p in_trg])
  moreover have "length (mesh_slice trg ?a ?b) = ?b - ?a"
    using b by (simp add: mesh_slice_def)
  then have "csr_row (getCrudeCSRMatrix (snd (prepare lib src (mesh_slice trg ?a ?b))) (length src)) l
      = cell_row lib src (trg ! (?a + l))"
    using ll b by (simp add: getCrudeCSRMatrix_def prepare_def csr_row_of_rows mesh_slice_def)
  ultimately show ?thesis
    by (simp only: w fst_conv snd_conv g)
qed

lemma script_sums_slices:
  assumes p: "0 < nbProc" "nbProc \<le> length trg"
    and st_seq: "prepare_status lib src trg = 1"
    and st_par: "\<forall>u \<in> set (workToDo trg nbProc). prepare_status lib src (fst u) = 1"
  shows "\<exists>subMatrices P D.
           pool_map (work lib src trg) (workToDo trg nbProc) = Inr subMatrices
         \<and> length subMatrices = nbProc
         \<and> (\<forall>k < nbProc.
               work lib src trg (workToDo trg nbProc ! k) = Inr (subMatrices ! k)
             \<and> shape (subMatrices ! k) = (length trg, length src)
             \<and> data (subMatrices ! k)
                 = data (getCrudeCSRMatrix (snd (prepare lib src (fst (workToDo trg nbProc ! k)))) (length src))
             \<and> indices (subMatrices ! k)
                 = indices (getCrudeCSRMatrix (snd (prepare lib src (fst (workToDo trg nbProc ! k)))) (length src))
             \<and> length (indptr (subMatrices ! k)) = length trg + 1
             \<and> (\<forall>l < length (snd (workToDo trg nbProc ! k)).
                   csr_row (subMatrices ! k) (nat (snd (workToDo trg nbProc ! k) ! l))
                     = csr_row (getCrudeCSRMatrix (snd (prepare lib src (fst (workToDo trg nbProc ! k)))) (length src)) l)
             \<and> (\<forall>i < length trg.
                   csr_row (subMatrices ! k) i
                     = (if fst (GetSlice 0 (length trg) k nbProc) \<le> i \<and> i < snd (GetSlice 0 (length trg) k nbProc)
                        then csr_row (getCrudeCSRMatrix (snd (prepare lib src trg)) (length src)) i else [])))
         \<and> (\<forall>i < length trg.
               \<exists>!k. k < nbProc \<and> fst (GetSlice 0 (length trg) k nbProc) \<le> i \<and> i < snd (GetSlice 0 (length trg) k nbProc))
         \<and> sum_from PyZero subMatrices = Inr (PyMat P)
         \<and> shape P = shape (getCrudeCSRMatrix (snd (prepare lib src trg)) (length src))
         \<and> (\<forall>i j. entry P i j = entry (getCrudeCSRMatrix (snd (prepare lib src trg)) (length src)) i j)
         \<and> csr_sub (getCrudeCSRMatrix (snd (prepare lib src trg)) (length src)) P = Inr D
         \<and> nnz D = 0 \<and> data D = []
         \<and> multiprocessing_script lib src trg nbProc
             = Inr \<lparr> matSeq = getCrudeCSRMatrix (snd (prepare lib src trg)) (length src),
                     matPar = PyMat P, matDelta = D \<rparr>"
proof -
  let ?seq = "getCrudeCSRMatrix (snd (prepare lib src trg)) (length src)"
  from script_matrices_equal [OF assms] obtain subMatrices P D where
    r: "pool_map (work lib src trg) (workToDo trg nbProc) = Inr subMatrices"
       "subMatrices = map (slice_matrix lib src trg nbProc) [0..<nbProc]"
       "sum_from PyZero subMatrices = Inr (PyMat P)"
       "shape P = shape ?seq"
       "\<forall>i j. entry P i j = entry ?seq i j"
       "csr_sub ?seq P = Inr D" "nnz D = 0" "data D = []"
       "multiprocessing_script lib src trg nbProc = Inr \<lparr> matSeq = ?seq, matPar = PyMat P, matDelta = D \<rparr>"
    by blast
  have len: "length subMatrices = nbProc"
    by (simp add: r(2))
  have nth: "subMatrices ! k = slice_matrix lib src trg nbProc k" if "k < nbProc" for k
    using that by (simp add: r(2))
  have seq_row: "csr_row ?seq i = cell_row lib src (trg ! i)" if "i < length trg" for i
    using that by (simp add: getCrudeCSRMatrix_def prepare_def csr_row_of_rows)
  have st_k: "prepare_status lib src (fst (workToDo trg nbProc ! k)) = 1" if "k < nbProc" for k
  proof -
    have "workToDo trg nbProc ! k \<in> set (workToDo trg nbProc)"
      using that by (simp add: workToDo_def)
    then show ?thesis using st_par by blast
  qed
  have each: "work lib src trg (workToDo trg nbProc ! k) = Inr (subMatrices ! k)
             \<and> shape (subMatrices ! k) = (length trg, length src)
             \<and> data (subMatrices ! k)
                 = data (getCrudeCSRMatrix (snd (prepare lib src (fst (workToDo trg nbProc ! k)))) (length src))
             \<and> indices (subMatrices ! k)
                 = indices (getCrudeCSRMatrix (snd (prepare lib src (fst (workToDo trg nbProc ! k)))) (length src))
             \<and> length (indptr (subMatrices ! k)) = length trg + 1
             \<and> (\<forall>l < length (snd (workToDo trg nbProc ! k)).
                   csr_row (subMatrices ! k) (nat (snd (workToDo trg nbProc ! k) ! l))
                     = csr_row (getCrudeCSRMatrix (snd (prepare lib src (fst (workToDo trg nbProc ! k)))) (length src)) l)
             \<and> (\<forall>i < length trg.
                   csr_row (subMatrices ! k) i
                     = (if fst (GetSlice 0 (length trg) k nbProc) \<le> i \<and> i < snd (GetSlice 0 (length trg) k nbProc)
                        then csr_row ?seq i else []))"
    if k: "k < nbProc" for k
  proof (intro conjI allI impI)
    show "work lib src trg (workToDo trg nbProc ! k) = Inr (subMatrices ! k)"
      by (simp add: work_result [OF p k] st_k [OF k] nth [OF k])
    show "shape (subMatrices ! k) = (length trg, length src)"
      by (simp only: nth [OF k] shape_slice_matrix [OF p k])
    show "data (subMatrices ! k)
        = data (getCrudeCSRMatrix (snd (prepare lib src (fst (workToDo trg nbProc ! k)))) (length src))"
      by (simp only: nth [OF k] slice_matrix_arrays(1) [OF p k])
    show "indices (subMatrices ! k)
        = indices (getCrudeCSRMatrix (snd (prepare lib src (fst (workToDo trg nbProc ! k)))) (length src))"
      by (simp only: nth [OF k] slice_matrix_arrays(2) [OF p k])
    show "length (indptr (subMatrices ! k)) = length trg + 1"
      by (simp add: nth [OF k] slice_matrix_arrays(3) [OF p k])
    show "csr_row (subMatrices ! k) (nat (snd (workToDo trg nbProc ! k) ! l))
        = csr_row (getCrudeCSRMatrix (snd (prepare lib src (fst (workToDo trg nbProc ! k)))) (length src)) l"
      if "l < length (snd (workToDo trg nbProc ! k))" for l
      by (simp only: nth [OF k] rows_by_partToGlob [OF p k that])
    show "csr_row (subMatrices ! k) i
        = (if fst (GetSlice 0 (length trg) k nbProc) \<le> i \<and> i < snd (GetSlice 0 (length trg) k nbProc)
           then csr_row ?seq i else [])"
      if "i < length trg" for i
      by (simp add: nth [OF k] csr_row_slice_matrix [OF p k that] seq_row [OF that])
  qed
  have one: "\<forall>i < length trg.
               \<exists>!k. k < nbProc \<and> fst (GetSlice 0 (length trg) k nbProc) \<le> i \<and> i < snd (GetSlice 0 (length trg) k nbProc)"
    using one_slice_per_row [OF p] by blast
  show ?thesis
    apply (rule exI [of _ subMatrices], rule exI [of _ P], rule exI [of _ D])
    apply (intro conjI)
    using r len one each by blast+
qed

subsection \<open>The assertions on the status of a preparation\<close>



subsection \<open>The meshes of the script\<close>

text \<open>
  Modelled from the spec: "two regular 3D grids of \<open>nbCells\<close>-per-axis cells (20 in the
  example) are built over \<open>[0,1]^3\<close>; the second is deep-copied from the first and shifted
  by half a cell-width along each axis" (lines 38 to 54). The meshes are functions of
  \<open>nbCells\<close>, which the script sets to 20. A cell of the grid is kept as its two opposite
  corners; the cells are numbered along x first, then y, then z.
\<close>

type_synonym point = "real \<times> real \<times> real"

type_synonym cell = "point \<times> point"

definition iota_over :: "nat \<Rightarrow> real list" where
  "iota_over n = map (\<lambda>i. real i / real n) [0..<n + 1]"

definition buildUnstructured :: "real list \<Rightarrow> real list \<Rightarrow> real list \<Rightarrow> cell list" where
  "buildUnstructured xs ys zs =
     concat (map (\<lambda>k. concat (map (\<lambda>j. map (\<lambda>i.
         ((xs ! i, ys ! j, zs ! k), (xs ! Suc i, ys ! Suc j, zs ! Suc k)))
       [0..<length xs - 1]) [0..<length ys - 1])) [0..<length zs - 1])"

definition translate :: "point \<Rightarrow> cell list \<Rightarrow> cell list" where
  "translate t mesh =
     (case t of (tx, ty, tz) \<Rightarrow>
        map (\<lambda>((x0, y0, z0), (x1, y1, z1)). ((x0 + tx, y0 + ty, z0 + tz), (x1 + tx, y1 + ty, z1 + tz))) mesh)"

definition m :: "nat \<Rightarrow> cell list" where
  "m nbCells = (let arr = iota_over nbCells in buildUnstructured arr arr arr)"

definition m2 :: "nat \<Rightarrow> cell list" where
  "m2 nbCells = (let t = 1 / (2 * real nbCells) in translate (t, t, t) (m nbCells))"

text \<open>
  A remapper for such grids, to run the script on: the row of a target cell holds, for
  every source cell it meets, the volume of their intersection; its preparations
  return the status 1.
\<close>

definition overlap :: "real \<Rightarrow> real \<Rightarrow> real \<Rightarrow> real \<Rightarrow> real" where
  "overlap a b c d = max 0 (min b d - max a c)"

definition box_volume :: "cell \<Rightarrow> cell \<Rightarrow> real" where
  "box_volume s t =
     (case (s, t) of (((a0, b0, c0), (a1, b1, c1)), ((x0, y0, z0), (x1, y1, z1))) \<Rightarrow>
        overlap a0 a1 x0 x1 * overlap b0 b1 y0 y1 * overlap c0 c1 z0 z1)"

definition box_remapper :: "cell remapper_lib" where
  "box_remapper =
     \<lparr> prepare_status = (\<lambda>srcMesh trgMesh. 1),
       cell_row = (\<lambda>srcMesh c. filter (\<lambda>p. snd p \<noteq> 0)
                     (map (\<lambda>j. (j, box_volume (srcMesh ! j) c)) [0..<length srcMesh])) \<rparr>"

lemma length_buildUnstructured:
  "length (buildUnstructured xs ys zs) = (length xs - 1) * (length ys - 1) * (length zs - 1)"
  by (simp add: buildUnstructured_def length_concat comp_def sum_list_triv)

lemma length_m: "length (m nbCells) = nbCells ^ 3"
  by (simp add: m_def Let_def length_buildUnstructured iota_over_def power3_eq_cube)

lemma length_m2: "length (m2 nbCells) = nbCells ^ 3"
  by (simp add: m2_def Let_def translate_def length_m)


subsection \<open>The parallel matrix is the sequential one\<close>

text \<open>
  C4. For the source grid \<open>m\<close> of \<open>nbCells^3\<close> cells (20 in the script), its copy \<open>m2\<close>
  moved by half a cell as target, and any number of processes from 1 to the number of
  target cells, when every preparation returns the status 1:
  the pool returns \<open>nbProc\<close> matrices, the one of slice \<open>k\<close> being what \<^verbatim>\<open>work\<close> returns for
  the \<open>k\<close>-th input; it has the shape of the whole matrix, the values and columns of the
  slice's own matrix, and a row-offset array of the full row count, in which row
  \<open>partToGlob[l]\<close> is row \<open>l\<close> of the slice's matrix, that is the row of the sequential
  matrix inside the slice, and every row outside the slice is empty; every target row
  lies in exactly one slice; the sum of these matrices has the shape and, entry by
  entry, the values of the sequential matrix; their difference has no stored entry;
  and the script returns these three matrices.
\<close>

theorem parallel_matrix_equals_sequential:
  assumes "0 < nbProc" "nbProc \<le> nbCells ^ 3"
    and "prepare_status lib (m nbCells) (m2 nbCells) = 1"
    and "\<forall>u \<in> set (workToDo (m2 nbCells) nbProc). prepare_status lib (m nbCells) (fst u) = 1"
  shows "length (m nbCells) = nbCells ^ 3 \<and> length (m2 nbCells) = nbCells ^ 3
       \<and> (\<exists>subMatrices P D.
           pool_map (work lib (m nbCells) (m2 nbCells)) (workToDo (m2 nbCells) nbProc) = Inr subMatrices
         \<and> length subMatrices = nbProc
         \<and> (\<forall>k < nbProc.
               work lib (m nbCells) (m2 nbCells) (workToDo (m2 nbCells) nbProc ! k) = Inr (subMatrices ! k)
             \<and> shape (subMatrices ! k) = (length (m2 nbCells), length (m nbCells))
             \<and> data (subMatrices ! k)
                 = data (getCrudeCSRMatrix (snd (prepare lib (m nbCells) (fst (workToDo (m2 nbCells) nbProc ! k))))
                          (length (m nbCells)))
             \<and> indices (subMatrices ! k)
                 = indices (getCrudeCSRMatrix (snd (prepare lib (m nbCells) (fst (workToDo (m2 nbCells) nbProc ! k))))
                             (length (m nbCells)))
             \<and> length (indptr (subMatrices ! k)) = length (m2 nbCells) + 1
             \<and> (\<forall>l < length (snd (workToDo (m2 nbCells) nbProc ! k)).
                   csr_row (subMatrices ! k) (nat (snd (workToDo (m2 nbCells) nbProc ! k) ! l))
                     = csr_row (getCrudeCSRMatrix (snd (prepare lib (m nbCells) (fst (workToDo (m2 nbCells) nbProc ! k))))
                                 (length (m nbCells))) l)
             \<and> (\<forall>i < length (m2 nbCells).
                   csr_row (subMatrices ! k) i
                     = (if fst (GetSlice 0 (length (m2 nbCells)) k nbProc) \<le> i
                           \<and> i < snd (GetSlice 0 (length (m2 nbCells)) k nbProc)
                        then csr_row (getCrudeCSRMatrix (snd (prepare lib (m nbCells) (m2 nbCells))) (length (m nbCells))) i
                        else [])))
         \<and> (\<forall>i < length (m2 nbCells).
               \<exists>!k. k < nbProc \<and> fst (GetSlice 0 (length (m2 nbCells)) k nbProc) \<le> i
                      \<and> i < snd (GetSlice 0 (length (m2 nbCells)) k nbProc))
         \<and> sum_from PyZero subMatrices = Inr (PyMat P)
         \<and> shape P = shape (getCrudeCSRMatrix (snd (prepare lib (m nbCells) (m2 nbCells))) (length (m nbCells)))
         \<and> (\<forall>i j. entry P i j
                    = entry (getCrudeCSRMatrix (snd (prepare lib (m nbCells) (m2 nbCells))) (length (m nbCells))) i j)
         \<and> csr_sub (getCrudeCSRMatrix (snd (prepare lib (m nbCells) (m2 nbCells))) (length (m nbCells))) P = Inr D
         \<and> nnz D = 0 \<and> data D = []
         \<and> multiprocessing_script lib (m nbCells) (m2 nbCells) nbProc
             = Inr \<lparr> matSeq = getCrudeCSRMatrix (snd (prepare lib (m nbCells) (m2 nbCells))) (length (m nbCells)),
                     matPar = PyMat P, matDelta = D \<rparr>)"
proof (intro conjI)
  show "length (m nbCells) = nbCells ^ 3" by (rule length_m)
  show "length (m2 nbCells) = nbCells ^ 3" by (rule length_m2)
  have "nbProc \<le> length (m2 nbCells)"
    using assms(2) by (simp only: length_m2)
  from script_sums_slices [OF assms(1) this assms(3) assms(4)]
  show "\<exists>subMatrices P D.
           pool_map (work lib (m nbCells) (m2 nbCells)) (workToDo (m2 nbCells) nbProc) = Inr subMatrices
         \<and> length subMatrices = nbProc
         \<and> (\<forall>k < nbProc.
               work lib (m nbCells) (m2 nbCells) (workToDo (m2 nbCells) nbProc ! k) = Inr (subMatrices ! k)
             \<and> shape (subMatrices ! k) = (length (m2 nbCells), length (m nbCells))
             \<and> data (subMatrices ! k)
                 = data (getCrudeCSRMatrix (snd (prepare lib (m nbCells) (fst (workToDo (m2 nbCells) nbProc ! k))))
                          (length (m nbCells)))
             \<and> indices (subMatrices ! k)
                 = indices (getCrudeCSRMatrix (snd (prepare lib (m nbCells) (fst (workToDo (m2 nbCells) nbProc ! k))))
                             (length (m nbCells)))
             \<and> length (indptr (subMatrices ! k)) = length (m2 nbCells) + 1
             \<and> (\<forall>l < length (snd (workToDo (m2 nbCells) nbProc ! k)).
                   csr_row (subMatrices ! k) (nat (snd (workToDo (m2 nbCells) nbProc ! k) ! l))
                     = csr_row (getCrudeCSRMatrix (snd (prepare lib (m nbCells) (fst (workToDo (m2 nbCells) nbProc ! k))))
                                 (length (m nbCells))) l)
             \<and> (\<forall>i < length (m2 nbCells).
                   csr_row (subMatrices ! k) i
                     = (if fst (GetSlice 0 (length (m2 nbCells)) k nbProc) \<le> i
                           \<and> i < snd (GetSlice 0 (length (m2 nbCells)) k nbProc)
                        then csr_row (getCrudeCSRMatrix (snd (prepare lib (m nbCells) (m2 nbCells))) (length (m nbCells))) i
                        else [])))
         \<and> (\<forall>i < length (m2 nbCells).
               \<exists>!k. k < nbProc \<and> fst (GetSlice 0 (length (m2 nbCells)) k nbProc) \<le> i
                      \<and> i < snd (GetSlice 0 (length (m2 nbCells)) k nbProc))
         \<and> sum_from PyZero subMatrices = Inr (PyMat P)
         \<and> shape P = shape (getCrudeCSRMatrix (snd (prepare lib (m nbCells) (m2 nbCells))) (length (m nbCells)))
         \<and> (\<forall>i j. entry P i j
                    = entry (getCrudeCSRMatrix (snd (prepare lib (m nbCells) (m2 nbCells))) (length (m nbCells))) i j)
         \<and> csr_sub (getCrudeCSRMatrix (snd (prepare lib (m nbCells) (m2 nbCells))) (length (m nbCells))) P = Inr D
         \<and> nnz D = 0 \<and> data D = []
         \<and> multiprocessing_script lib (m nbCells) (m2 nbCells) nbProc
             = Inr \<lparr> matSeq = getCrudeCSRMatrix (snd (prepare lib (m nbCells) (m2 nbCells))) (length (m nbCells)),
                     matPar = PyMat P, matDelta = D \<rparr>" .
qed

theorem parallel_matrix_equals_sequential_witness:
  "\<exists>subMatrices P D.
      pool_map (work box_remapper (m 2) (m2 2)) (workToDo (m2 2) 3) = Inr subMatrices
    \<and> map indptr subMatrices
        = [[0, 8, 12, 12, 12, 12, 12, 12, 12], [0, 0, 0, 4, 6, 6, 6, 6, 6], [0, 0, 0, 0, 0, 4, 6, 8, 9]]
    \<and> map indices subMatrices
        = [[0, 1, 2, 3, 4, 5, 6, 7, 1, 3, 5, 7], [2, 3, 6, 7, 3, 7], [4, 5, 6, 7, 5, 7, 6, 7, 7]]
    \<and> indptr (getCrudeCSRMatrix (snd (prepare box_remapper (m 2) (m2 2))) (length (m 2)))
        = [0, 8, 12, 16, 18, 22, 24, 26, 27]
    \<and> sum_from PyZero subMatrices = Inr (PyMat P)
    \<and> (\<forall>i j. entry P i j = entry (getCrudeCSRMatrix (snd (prepare box_remapper (m 2) (m2 2))) (length (m 2))) i j)
    \<and> csr_sub (getCrudeCSRMatrix (snd (prepare box_remapper (m 2) (m2 2))) (length (m 2))) P = Inr D
    \<and> nnz D = 0
    \<and> multiprocessing_script box_remapper (m 2) (m2 2) 3
        = Inr \<lparr> matSeq = getCrudeCSRMatrix (snd (prepare box_remapper (m 2) (m2 2))) (length (m 2)),
                matPar = PyMat P, matDelta = D \<rparr>"
proof -
  let ?seq = "getCrudeCSRMatrix (snd (prepare box_remapper (m 2) (m2 2))) (length (m 2))"
  have ev: "pool_map (work box_remapper (m 2) (m2 2)) (workToDo (m2 2) 3)
    = Inr [\<lparr>data = [1 / 64, 1 / 64, 1 / 64, 1 / 64, 1 / 64, 1 / 64, 1 / 64, 1 / 64, 1 / 64, 1 / 64, 1 / 64, 1 / 64],
             indices = [0, 1, 2, 3, 4, 5, 6, 7, 1, 3, 5, 7],
             indptr = [0, 8, 12, 12, 12, 12, 12, 12, 12], shape = (8, 8)\<rparr>,
           \<lparr>data = [1 / 64, 1 / 64, 1 / 64, 1 / 64, 1 / 64, 1 / 64],
             indices = [2, 3, 6, 7, 3, 7], indptr = [0, 0, 0, 4, 6, 6, 6, 6, 6], shape = (8, 8)\<rparr>,
           \<lparr>data = [1 / 64, 1 / 64, 1 / 64, 1 / 64, 1 / 64, 1 / 64, 1 / 64, 1 / 64, 1 / 64],
             indices = [4, 5, 6, 7, 5, 7, 6, 7, 7],
             indptr = [0, 0, 0, 0, 0, 4, 6, 8, 9], shape = (8, 8)\<rparr>]"
    by code_simp
  have seq: "indptr ?seq = [0, 8, 12, 16, 18, 22, 24, 26, 27]"
    by code_simp
  have h: "0 < (3 :: nat)" "(3 :: nat) \<le> 2 ^ 3"
    "prepare_status box_remapper (m 2) (m2 2) = 1"
    "\<forall>u \<in> set (workToDo (m2 2) 3). prepare_status box_remapper (m 2) (fst u) = 1"
    by (simp_all add: box_remapper_def)
  from parallel_matrix_equals_sequential [OF h] obtain subMatrices P D where
    r: "pool_map (work box_remapper (m 2) (m2 2)) (workToDo (m2 2) 3) = Inr subMatrices"
       "sum_from PyZero subMatrices = Inr (PyMat P)"
       "\<forall>i j. entry P i j = entry ?seq i j"
       "csr_sub ?seq P = Inr D" "nnz D = 0"
       "multiprocessing_script box_remapper (m 2) (m2 2) 3
         = Inr \<lparr> matSeq = ?seq, matPar = PyMat P, matDelta = D \<rparr>"
    by (elim conjE exE) blast
  have s: "subMatrices = [\<lparr>data = [1 / 64, 1 / 64, 1 / 64, 1 / 64, 1 / 64, 1 / 64, 1 / 64, 1 / 64, 1 / 64, 1 / 64, 1 / 64, 1 / 64],
             indices = [0, 1, 2, 3, 4, 5, 6, 7, 1, 3, 5, 7],
             indptr = [0, 8, 12, 12, 12, 12, 12, 12, 12], shape = (8, 8)\<rparr>,
           \<lparr>data = [1 / 64, 1 / 64, 1 / 64, 1 / 64, 1 / 64, 1 / 64],
             indices = [2, 3, 6, 7, 3, 7], indptr = [0, 0, 0, 4, 6, 6, 6, 6, 6], shape = (8, 8)\<rparr>,
           \<lparr>data = [1 / 64, 1 / 64, 1 / 64, 1 / 64, 1 / 64, 1 / 64, 1 / 64, 1 / 64, 1 / 64],
             indices = [4, 5, 6, 7, 5, 7, 6, 7, 7],
             indptr = [0, 0, 0, 0, 0, 4, 6, 8, 9], shape = (8, 8)\<rparr>]"
    using r(1) ev by simp
  have i1: "map indptr subMatrices
        = [[0, 8, 12, 12, 12, 12, 12, 12, 12], [0, 0, 0, 4, 6, 6, 6, 6, 6], [0, 0, 0, 0, 0, 4, 6, 8, 9]]"
    by (simp add: s)
  have i2: "map indices subMatrices
        = [[0, 1, 2, 3, 4, 5, 6, 7, 1, 3, 5, 7], [2, 3, 6, 7, 3, 7], [4, 5, 6, 7, 5, 7, 6, 7, 7]]"
    by (simp add: s)
  show ?thesis
    by (intro exI [of _ subMatrices] exI [of _ P] exI [of _ D] conjI r i1 i2 seq)
qed

section \<open>DataArray.py: polar and Cartesian coordinates\<close>

text \<open>
  Modelled from the spec: "convert all tuples of a 2-component array between Cartesian
  and polar representations". A polar tuple is (radius, angle); the angle of a
  Cartesian tuple is the two-argument arctangent of C, with values in \<open>(-pi, pi]\<close>, and
  its radius is the Euclidean norm. Doubles are read as real numbers.
\<close>

definition atan2 :: "real \<Rightarrow> real \<Rightarrow> real" where
  "atan2 y x =
     (if 0 < x then arctan (y / x)
      else if x < 0 then (if 0 \<le> y then arctan (y / x) + pi else arctan (y / x) - pi)
      else if 0 < y then pi / 2
      else if y < 0 then - (pi / 2)
      else 0)"

definition fromPolarToCart :: "(real \<times> real) list \<Rightarrow> (real \<times> real) list" where
  "fromPolarToCart arr = map (\<lambda>(r, theta). (r * cos theta, r * sin theta)) arr"

definition fromCartToPolar :: "(real \<times> real) list \<Rightarrow> (real \<times> real) list" where
  "fromCartToPolar arr = map (\<lambda>(x, y). (sqrt (x * x + y * y), atan2 y x)) arr"

text \<open>
  Modelled from the spec: the magnitude of every tuple, and "uniform within" a
  tolerance: every value is within the tolerance of the expected one.
\<close>

definition magnitude :: "(real \<times> real) list \<Rightarrow> real list" where
  "magnitude arr = map (\<lambda>(x, y). sqrt (x * x + y * y)) arr"

definition isUniform :: "real list \<Rightarrow> real \<Rightarrow> real \<Rightarrow> bool" where
  "isUniform arr val eps = list_all (\<lambda>x. \<bar>x - val\<bar> \<le> eps) arr"

text \<open>
  The script, lines 117 to 129: the two columns of the corners of the square, then the
  two conversions in the order the script calls them.
\<close>

definition data_arr :: "(real \<times> real) list" where
  "data_arr = zip [- 0.5, 0.5, 0.5, - 0.5] [- 0.5, - 0.5, 0.5, 0.5]"

definition data_arr_pol :: "(real \<times> real) list" where
  "data_arr_pol = fromPolarToCart data_arr"

definition data_arr_cart :: "(real \<times> real) list" where
  "data_arr_cart = fromCartToPolar data_arr_pol"


subsection \<open>The two conversions\<close>

lemma radius_of_polar: "sqrt ((r * cos t) * (r * cos t) + (r * sin t) * (r * sin t)) = \<bar>r\<bar>"
proof -
  have "(r * cos t) * (r * cos t) + (r * sin t) * (r * sin t) = (r * cos t)\<^sup>2 + (r * sin t)\<^sup>2"
    by (simp add: power2_eq_square)
  also have "\<dots> = r\<^sup>2 * ((cos t)\<^sup>2 + (sin t)\<^sup>2)"
    by (simp only: power_mult_distrib distrib_left)
  also have "\<dots> = r\<^sup>2"
    by simp
  finally show ?thesis by simp
qed

lemma half_in_range: "(1 / 2 :: real) < pi / 2"
  using pi_ge_two by simp

lemma tan_ratio: "cos t \<noteq> 0 \<Longrightarrow> r \<noteq> 0 \<Longrightarrow> (r * sin t) / (r * cos t) = tan t"
  by (simp add: tan_def)

lemma angle_pos:
  assumes "0 < r" "- (pi / 2) < t" "t < pi / 2"
  shows "atan2 (r * sin t) (r * cos t) = t"
proof -
  have c: "0 < cos t" using assms by (intro cos_gt_zero_pi) simp_all
  then have "0 < r * cos t" using assms by simp
  moreover have "(r * sin t) / (r * cos t) = tan t" using c assms by (intro tan_ratio) simp_all
  ultimately show ?thesis
    using assms by (simp add: atan2_def arctan_tan del: times_divide_eq_right times_divide_eq_left)
qed

lemma angle_neg_below:
  assumes "r < 0" "- (pi / 2) < t" "t < 0"
  shows "atan2 (r * sin t) (r * cos t) = t + pi"
proof -
  have c: "0 < cos t" using assms by (intro cos_gt_zero_pi) simp_all
  then have x: "r * cos t < 0" using assms by (simp add: mult_neg_pos)
  have "sin t < 0" using assms sin_gt_zero [of "- t"] by simp
  then have y: "0 \<le> r * sin t" using assms by (simp add: mult_nonpos_nonpos)
  have "(r * sin t) / (r * cos t) = tan t" using c assms by (intro tan_ratio) simp_all
  moreover have "arctan (tan t) = t" using assms by (intro arctan_tan) simp_all
  ultimately show ?thesis
    using x y by (simp add: atan2_def del: times_divide_eq_right times_divide_eq_left)
qed

lemma angle_neg_above:
  assumes "r < 0" "0 < t" "t < pi / 2"
  shows "atan2 (r * sin t) (r * cos t) = t - pi"
proof -
  have c: "0 < cos t" using assms by (intro cos_gt_zero_pi) simp_all
  then have x: "r * cos t < 0" using assms by (simp add: mult_neg_pos)
  have "0 < sin t" using assms by (intro sin_gt_zero) simp_all
  then have y: "r * sin t < 0" using assms by (simp add: mult_neg_pos)
  have "(r * sin t) / (r * cos t) = tan t" using c assms by (intro tan_ratio) simp_all
  moreover have "arctan (tan t) = t" using assms by (intro arctan_tan) simp_all
  ultimately show ?thesis
    using x y by (simp add: atan2_def del: times_divide_eq_right times_divide_eq_left)
qed

lemma polar_of_cart_of: "fromCartToPolar (fromPolarToCart [(r, t)]) = [(\<bar>r\<bar>, atan2 (r * sin t) (r * cos t))]"
  by (simp add: fromCartToPolar_def fromPolarToCart_def radius_of_polar)


lemma radius_factor:
  assumes "x \<noteq> 0"
  shows "sqrt (x * x + y * y) = \<bar>x\<bar> * sqrt (1 + (y / x)\<^sup>2)"
proof -
  have "x * x + y * y = x\<^sup>2 * (1 + (y / x)\<^sup>2)"
    using assms by (simp add: power2_eq_square field_simps)
  then show ?thesis
    by (simp only: real_sqrt_mult real_sqrt_abs)
qed

lemma sqrt_one_plus_pos: "0 < sqrt (1 + (t :: real)\<^sup>2)"
  by (simp add: add_pos_nonneg)

lemma cart_of_polar_point:
  "sqrt (x * x + y * y) * cos (atan2 y x) = x \<and> sqrt (x * x + y * y) * sin (atan2 y x) = y"
proof -
  let ?t = "y / x" and ?s = "sqrt (1 + (y / x)\<^sup>2)"
  have s: "?s \<noteq> 0" using sqrt_one_plus_pos [of "y / x"] by simp
  consider "0 < x" | "x < 0" "0 \<le> y" | "x < 0" "y < 0" | "x = 0" "0 < y" | "x = 0" "y < 0" | "x = 0" "y = 0"
    by linarith
  then show ?thesis
  proof cases
    case 1
    then have r: "sqrt (x * x + y * y) = x * ?s" using radius_factor [of x y] by simp
    show ?thesis using 1 s by (simp add: atan2_def r cos_arctan sin_arctan)
  next
    case 2
    then have r: "sqrt (x * x + y * y) = - x * ?s" using radius_factor [of x y] by simp
    show ?thesis using 2 s by (simp add: atan2_def r cos_arctan sin_arctan)
  next
    case 3
    then have r: "sqrt (x * x + y * y) = - x * ?s" using radius_factor [of x y] by simp
    show ?thesis using 3 s by (simp add: atan2_def r cos_arctan sin_arctan)
  next
    case 4
    then show ?thesis by (simp add: atan2_def)
  next
    case 5
    then show ?thesis by (simp add: atan2_def)
  next
    case 6
    then show ?thesis by (simp add: atan2_def)
  qed
qed

lemma cart_polar_cart: "fromPolarToCart (fromCartToPolar arr) = arr"
proof -
  have "(\<lambda>(r, theta). (r * cos theta, r * sin theta)) ((\<lambda>(x, y). (sqrt (x * x + y * y), atan2 y x)) p) = p" for p
    using cart_of_polar_point [of "fst p" "snd p"] by (cases p) simp
  then show ?thesis
    by (simp add: fromPolarToCart_def fromCartToPolar_def comp_def map_idI)
qed

text \<open>
  C8 (the code at its own input). The script converts the Cartesian corners with
  \<^verbatim>\<open>fromPolarToCart\<close> first and \<^verbatim>\<open>fromCartToPolar\<close> second, naming the results
  \<^verbatim>\<open>data_arr_pol\<close> and \<^verbatim>\<open>data_arr_cart\<close>. The array it ends with is not the array it
  started from: the two corners whose first coordinate is negative come back with the
  radius \<open>1/2\<close> and an angle moved by \<open>pi\<close>, so the first row differs by 1 in its first
  component. In the order the names announce (\<open>cart_polar_cart\<close> above) the round trip
  gives the array back. The magnitude of every corner is \<open>sqrt 2 / 2\<close>.
\<close>

theorem polar_round_trip_of_data_arr:
  "data_arr = [(- 1 / 2, - 1 / 2), (1 / 2, - 1 / 2), (1 / 2, 1 / 2), (- 1 / 2, 1 / 2)]
   \<and> data_arr_cart = [(1 / 2, pi - 1 / 2), (1 / 2, - 1 / 2), (1 / 2, 1 / 2), (1 / 2, 1 / 2 - pi)]
   \<and> \<bar>fst (data_arr_cart ! 0) - fst (data_arr ! 0)\<bar> = 1
   \<and> isUniform (magnitude data_arr) (sqrt 2 / 2) (1 / 10 ^ 12)"
proof -
  note h = half_in_range
  have d: "data_arr = [(- 1 / 2, - 1 / 2), (1 / 2, - 1 / 2), (1 / 2, 1 / 2), (- 1 / 2, 1 / 2)]"
    by (simp add: data_arr_def)
  have a0: "atan2 (- (1 / 2) * sin (- (1 / 2))) (- (1 / 2) * cos (- (1 / 2))) = - (1 / 2) + pi"
    using h by (intro angle_neg_below) simp_all
  have a1: "atan2 (1 / 2 * sin (- (1 / 2))) (1 / 2 * cos (- (1 / 2))) = - (1 / 2)"
    using h by (intro angle_pos) simp_all
  have a2: "atan2 (1 / 2 * sin (1 / 2)) (1 / 2 * cos (1 / 2)) = 1 / 2"
    using h by (intro angle_pos) simp_all
  have a3: "atan2 (- (1 / 2) * sin (1 / 2)) (- (1 / 2) * cos (1 / 2)) = 1 / 2 - pi"
    using h by (intro angle_neg_above) simp_all
  have r: "sqrt ((r * cos t) * (r * cos t) + (r * sin t) * (r * sin t)) = \<bar>r\<bar>" for r t :: real
    by (rule radius_of_polar)
  have c: "data_arr_cart = [(1 / 2, pi - 1 / 2), (1 / 2, - 1 / 2), (1 / 2, 1 / 2), (1 / 2, 1 / 2 - pi)]"
    unfolding data_arr_cart_def data_arr_pol_def d fromCartToPolar_def fromPolarToCart_def
    using a0 a1 a2 a3 r [of "- (1 / 2)" "- (1 / 2)"] r [of "1 / 2" "- (1 / 2)"] r [of "1 / 2" "1 / 2"] r [of "- (1 / 2)" "1 / 2"]
    by simp
  have "sqrt (1 / 2) = sqrt 2 / 2"
    by (simp add: real_sqrt_divide real_div_sqrt)
  then have m: "isUniform (magnitude data_arr) (sqrt 2 / 2) (1 / 10 ^ 12)"
    by (simp add: isUniform_def magnitude_def d)
  have e: "\<bar>fst (data_arr_cart ! 0) - fst (data_arr ! 0)\<bar> = 1"
    by (simp add: d c)
  show ?thesis
    by (intro conjI d c e m)
qed

end
